theory Spec2Isabelle
  imports Main "HOL-Library.Sublist"
begin

section \<open>The utilities of the spidey web server (utils.c)\<close>

text \<open>
  A shallow embedding of \<^verbatim>\<open>utils.c\<close>. A C string is the list of its bytes before the
  terminating NUL; a \<^verbatim>\<open>char *\<close> that may be \<^verbatim>\<open>NULL\<close> is an \<open>option\<close>. A pointer
  into a buffer that the code scans or overwrites is an index into the list of the
  buffer's bytes, terminator included. What C leaves undefined (a write past the end of
  an array, a read outside an object) is a value of the type \<open>fault\<close>, so a function that
  can run into it returns \<open>fault + 'a\<close>.
\<close>

subsection \<open>Bytes, faults and the C library\<close>

datatype fault = BufferOverrun | OutOfBounds | NullDereference

definition NUL :: char where
  "NUL = CHR 0x00"

text \<open>\<^verbatim>\<open>isspace\<close> of \<^verbatim>\<open><ctype.h>\<close> in the C locale: space, \<^verbatim>\<open>\t \n \v \f \r\<close>.\<close>

definition isspace :: "char \<Rightarrow> bool" where
  "isspace c = (c \<in> set [CHR 0x20, CHR 0x09, CHR 0x0A, CHR 0x0B, CHR 0x0C, CHR 0x0D])"

text \<open>\<^verbatim>\<open>BUFSIZ\<close> of \<^verbatim>\<open><stdio.h>\<close>, with the value glibc gives it.\<close>

definition BUFSIZ :: nat where
  "BUFSIZ = 8192"

text \<open>
  \<^verbatim>\<open>sprintf(dst, "%s%s", a, b)\<close> into an array of \<open>cap\<close> bytes: it writes the bytes of
  both strings and a terminator, and nothing checks the size of the array.
\<close>

definition sprintf_ss :: "nat \<Rightarrow> string \<Rightarrow> string \<Rightarrow> fault + string" where
  "sprintf_ss cap a b =
     (if cap < length a + length b + 1 then Inl BufferOverrun else Inr (a @ b))"

text \<open>\<^verbatim>\<open>strncmp\<close>: the sign of the first difference within the first \<open>n\<close> bytes.\<close>

fun strncmp :: "string \<Rightarrow> string \<Rightarrow> nat \<Rightarrow> int" where
  "strncmp s1 s2 0 = 0"
| "strncmp [] [] (Suc n) = 0"
| "strncmp [] (b # bs) (Suc n) = - 1"
| "strncmp (a # as) [] (Suc n) = 1"
| "strncmp (a # as) (b # bs) (Suc n) =
     (if a = b then strncmp as bs n
      else if (of_char a :: nat) < of_char b then - 1 else 1)"

subsection \<open>Configuration and environment\<close>

text \<open>
  The globals \<^verbatim>\<open>RootPath\<close>, \<^verbatim>\<open>MimeTypesPath\<close> and \<^verbatim>\<open>DefaultMimeType\<close> and the macro
  \<^verbatim>\<open>WHITESPACE\<close> (the delimiters given to \<^verbatim>\<open>strtok\<close>) are declared in \<^verbatim>\<open>spidey.h\<close>;
  the functions take them as a parameter.
\<close>

record config =
  RootPath :: string
  MimeTypesPath :: string
  DefaultMimeType :: string
  WHITESPACE :: string

text \<open>
  The file system as the functions see it: what \<^verbatim>\<open>realpath(3)\<close> answers for a path
  (\<open>None\<close> when it fails), and the bytes of each file that \<^verbatim>\<open>fopen\<close> can open for
  reading (\<open>None\<close> when it cannot).
\<close>

record filesystem =
  realpath :: "string \<Rightarrow> string option"
  contents :: "string \<Rightarrow> string option"

subsection \<open>\<^verbatim>\<open>determine_request_path\<close>\<close>

text \<open>
  Lines 99 to 116. Line 109 writes a NUL where the string that \<^verbatim>\<open>realpath\<close> returned
  has its terminator, which changes nothing; it has no counterpart here.
\<close>

definition determine_request_path :: "config \<Rightarrow> filesystem \<Rightarrow> string \<Rightarrow> fault + string option" where
  "determine_request_path cfg fs uri =
     (case sprintf_ss BUFSIZ (RootPath cfg) uri of
        Inl f \<Rightarrow> Inl f
      | Inr buffer \<Rightarrow>
          (case realpath fs buffer of
             None \<Rightarrow> Inr None
           | Some combined_path \<Rightarrow>
               if strncmp combined_path (RootPath cfg) (length (RootPath cfg)) \<noteq> 0
               then Inr None
               else Inr (Some combined_path)))"

text \<open>
  The words of the specification, "a path outside RootPath": a path lies within the
  directory \<open>root\<close> when it is \<open>root\<close> itself or continues it after a separator.
\<close>

definition within_directory :: "string \<Rightarrow> string \<Rightarrow> bool" where
  "within_directory root p = (p = root \<or> prefix (root @ ''/'') p)"

subsection \<open>\<^verbatim>\<open>http_status_string\<close>\<close>

text \<open>
  \<^verbatim>\<open>HTTPStatus\<close> is an enumeration of \<^verbatim>\<open>spidey.h\<close>, an \<^verbatim>\<open>int\<close> in C; the values of its
  four enumerators are a parameter.
\<close>

record status_enum =
  HTTP_STATUS_OK :: int
  HTTP_STATUS_BAD_REQUEST :: int
  HTTP_STATUS_NOT_FOUND :: int
  HTTP_STATUS_INTERNAL_SERVER_ERROR :: int

definition StatusStrings :: "string list" where
  "StatusStrings =
     [''200 OK'',
      ''400 Bad Request'',
      ''404 Not Found'',
      ''500 Internal Server Error'',
      ''418 I'm A Teapot'']"

definition http_status_string :: "status_enum \<Rightarrow> int \<Rightarrow> string option" where
  "http_status_string e status =
     (if status = HTTP_STATUS_OK e then Some (StatusStrings ! 0)
      else if status = HTTP_STATUS_BAD_REQUEST e then Some (StatusStrings ! 1)
      else if status = HTTP_STATUS_NOT_FOUND e then Some (StatusStrings ! 2)
      else if status = HTTP_STATUS_INTERNAL_SERVER_ERROR e then Some (StatusStrings ! 3)
      else None)"

subsection \<open>\<^verbatim>\<open>skip_nonwhitespace\<close> and \<^verbatim>\<open>skip_whitespace\<close>\<close>

text \<open>
  The cursor \<open>s\<close> is an index into \<open>mem\<close>, the bytes of the object it points into. Each
  turn of the loop reads \<^verbatim>\<open>*s\<close>; a read at an index outside the object is a fault.
\<close>

function skip_nonwhitespace_loop :: "char list \<Rightarrow> nat \<Rightarrow> fault + nat" where
  "skip_nonwhitespace_loop mem s =
     (if length mem \<le> s then Inl OutOfBounds
      else if \<not> isspace (mem ! s) then skip_nonwhitespace_loop mem (s + 1)
      else Inr s)"
  by pat_completeness auto
termination
  by (relation "measure (\<lambda>(mem, s). length mem - s)") auto

definition skip_nonwhitespace :: "char list \<Rightarrow> nat option \<Rightarrow> fault + nat option" where
  "skip_nonwhitespace mem s =
     (case s of
        None \<Rightarrow> Inr None
      | Some i \<Rightarrow> map_sum id Some (skip_nonwhitespace_loop mem i))"

function skip_whitespace_loop :: "char list \<Rightarrow> nat \<Rightarrow> fault + nat" where
  "skip_whitespace_loop mem s =
     (if length mem \<le> s then Inl OutOfBounds
      else if isspace (mem ! s) then skip_whitespace_loop mem (s + 1)
      else Inr s)"
  by pat_completeness auto
termination
  by (relation "measure (\<lambda>(mem, s). length mem - s)") auto

definition skip_whitespace :: "char list \<Rightarrow> nat option \<Rightarrow> fault + nat option" where
  "skip_whitespace mem s =
     (case s of
        None \<Rightarrow> Inr None
      | Some i \<Rightarrow> map_sum id Some (skip_whitespace_loop mem i))"

declare skip_nonwhitespace_loop.simps [simp del]
declare skip_whitespace_loop.simps [simp del]

subsection \<open>The C library on a buffer\<close>

text \<open>The C string that starts at index \<open>p\<close> of \<open>mem\<close>, and its \<^verbatim>\<open>strlen\<close>.\<close>

definition string_at :: "char list \<Rightarrow> nat \<Rightarrow> string" where
  "string_at mem p = takeWhile (\<lambda>c. c \<noteq> NUL) (drop p mem)"

definition strlen :: "char list \<Rightarrow> nat \<Rightarrow> nat" where
  "strlen mem p = length (string_at mem p)"

text \<open>
  \<^verbatim>\<open>strspn\<close> and \<^verbatim>\<open>strcspn\<close>: the length of the run, from index \<open>p\<close>, of bytes that are
  (are not) in the given set; the run ends at the terminator at the latest.
\<close>

definition strspn :: "char list \<Rightarrow> nat \<Rightarrow> string \<Rightarrow> nat" where
  "strspn mem p accept = length (takeWhile (\<lambda>c. c \<noteq> NUL \<and> c \<in> set accept) (drop p mem))"

definition strcspn :: "char list \<Rightarrow> nat \<Rightarrow> string \<Rightarrow> nat" where
  "strcspn mem p reject = length (takeWhile (\<lambda>c. c \<noteq> NUL \<and> c \<notin> set reject) (drop p mem))"

text \<open>
  \<^verbatim>\<open>strtok(str, delim)\<close>. The library keeps the place to resume at in a static
  variable; here it is the argument and the last component of the result. The call
  skips the delimiters at the start, answers \<^verbatim>\<open>NULL\<close> when the string ends there, and
  otherwise ends the token by writing a NUL over the delimiter that follows it.
\<close>

definition strtok :: "char list \<Rightarrow> nat option \<Rightarrow> string \<Rightarrow> nat \<Rightarrow> nat option \<times> char list \<times> nat" where
  "strtok mem str delim save =
     (let s = (case str of None \<Rightarrow> save | Some p \<Rightarrow> p);
          token = s + strspn mem s delim
      in if length mem \<le> token \<or> mem ! token = NUL then (None, mem, token)
         else
           let e = token + strcspn mem token delim
           in if length mem \<le> e \<or> mem ! e = NUL then (Some token, mem, e)
              else (Some token, mem[e := NUL], e + 1))"

text \<open>
  \<^verbatim>\<open>fgets(buffer, n, stream)\<close>, the stream being the bytes of the file not yet read: it
  reads at most \<open>n - 1\<close> bytes, stops after a newline, and ends what it read with a NUL;
  it answers \<^verbatim>\<open>NULL\<close> at the end of the file.
\<close>

fun fgets_read :: "nat \<Rightarrow> string \<Rightarrow> string \<times> string" where
  "fgets_read n [] = ([], [])"
| "fgets_read n (c # cs) =
     (if n = 0 then ([], c # cs)
      else if c = CHR 0x0A then ([c], cs)
      else (case fgets_read (n - 1) cs of (l, r) \<Rightarrow> (c # l, r)))"

definition fgets :: "nat \<Rightarrow> string \<Rightarrow> (char list \<times> string) option" where
  "fgets n stream =
     (if stream = [] then None
      else (case fgets_read (n - 1) stream of (l, r) \<Rightarrow> Some (l @ [NUL], r)))"

text \<open>\<^verbatim>\<open>strrchr\<close>: the index of the last occurrence of a byte in a string.\<close>

fun strrchr :: "string \<Rightarrow> char \<Rightarrow> nat option" where
  "strrchr [] c = None"
| "strrchr (x # xs) c =
     (case strrchr xs c of
        Some i \<Rightarrow> Some (Suc i)
      | None \<Rightarrow> if x = c then Some 0 else None)"

text \<open>
  Modelled from the spec: the macro \<^verbatim>\<open>streq\<close> of \<^verbatim>\<open>spidey.h\<close>, which compares two
  strings "case-sensitively and exactly".
\<close>

definition streq :: "string \<Rightarrow> string \<Rightarrow> bool" where
  "streq a b = (a = b)"

subsection \<open>\<^verbatim>\<open>determine_mimetype\<close>\<close>

text \<open>
  Lines 67 to 72: \<open>back\<close> starts at the last byte of the string at \<open>c\<close> and moves down
  over spaces while it is above \<open>c\<close>; a NUL goes after it and the string at \<open>c\<close> is
  duplicated. With \<open>c\<close> the start of the array and an empty string there, \<open>back\<close> would
  point before the array.
\<close>

function trim_loop :: "char list \<Rightarrow> nat \<Rightarrow> nat \<Rightarrow> nat" where
  "trim_loop mem c back =
     (if c < back \<and> isspace (mem ! back) then trim_loop mem c (back - 1) else back)"
  by pat_completeness auto
termination
  by (relation "measure (\<lambda>(mem, c, back). back)") auto

declare trim_loop.simps [simp del]

definition trim_and_dup :: "char list \<Rightarrow> nat \<Rightarrow> fault + string" where
  "trim_and_dup mem c =
     (if c + strlen mem c = 0 then Inl OutOfBounds
      else
        let back = trim_loop mem c (c + strlen mem c - 1)
        in Inr (string_at (mem[back + 1 := NUL]) c))"

text \<open>
  The loops of \<^verbatim>\<open>determine_mimetype\<close> end because \<^verbatim>\<open>strtok\<close> and \<^verbatim>\<open>fgets\<close> move
  forward.
\<close>

lemma strtok_progress:
  assumes "strtok mem None delim save = (Some t, mem', save')"
  shows "save < save' \<and> save' \<le> length mem \<and> length mem' = length mem"
proof -
  define tok where "tok = save + strspn mem save delim"
  have tok: "tok < length mem" "mem ! tok \<noteq> NUL"
    using assms by (auto simp: strtok_def Let_def tok_def split: if_splits)
  have notdelim: "\<not> (mem ! tok \<noteq> NUL \<and> mem ! tok \<in> set delim)"
  proof -
    let ?P = "\<lambda>c. c \<noteq> NUL \<and> c \<in> set delim"
    have "strspn mem save delim < length (drop save mem)"
      using tok(1) by (simp add: tok_def)
    then have "\<not> ?P (drop save mem ! strspn mem save delim)"
      unfolding strspn_def by (rule nth_length_takeWhile)
    moreover have "drop save mem ! strspn mem save delim = mem ! tok"
      using tok(1) by (simp add: tok_def)
    ultimately show ?thesis by simp
  qed
  have "0 < strcspn mem tok delim"
  proof -
    have "drop tok mem = mem ! tok # drop (Suc tok) mem"
      using tok(1) by (simp add: Cons_nth_drop_Suc)
    then show ?thesis
      using tok(2) notdelim by (simp add: strcspn_def)
  qed
  moreover have "tok + strcspn mem tok delim \<le> length mem"
  proof -
    have "strcspn mem tok delim \<le> length (drop tok mem)"
      unfolding strcspn_def by (rule length_takeWhile_le)
    then show ?thesis using tok(1) by simp
  qed
  ultimately show ?thesis
    using assms tok
    by (auto simp: strtok_def Let_def tok_def split: if_splits)
qed

lemma fgets_read_length: "length (snd (fgets_read n s)) \<le> length s"
proof (induction s arbitrary: n)
  case Nil
  show ?case by simp
next
  case (Cons c cs)
  from Cons [of "n - 1"] show ?case
    by (auto split: prod.splits)
qed

lemma fgets_read_progress:
  "0 < n \<Longrightarrow> s \<noteq> [] \<Longrightarrow> length (snd (fgets_read n s)) < length s"
  using fgets_read_length [of "n - 1" "tl s"]
  by (cases s) (auto split: prod.splits simp: less_Suc_eq_le)

lemma fgets_progress:
  assumes "fgets BUFSIZ stream = Some (buffer, stream')"
  shows "length stream' < length stream"
  using assms fgets_read_progress [of "BUFSIZ - 1" stream]
  by (auto simp: fgets_def BUFSIZ_def split: if_splits prod.splits)

function token_loop :: "string \<Rightarrow> string \<Rightarrow> char list \<Rightarrow> nat \<Rightarrow> nat option \<Rightarrow> fault + string option" where
  "token_loop delim ext mem save None = Inr None"
| "token_loop delim ext mem save (Some token) =
     (case skip_whitespace mem (Some token) of
        Inl f \<Rightarrow> Inl f
      | Inr None \<Rightarrow> Inl NullDereference
      | Inr (Some token') \<Rightarrow>
          if streq (string_at mem token') ext then map_sum id Some (trim_and_dup mem 0)
          else
            (case strtok mem None delim save of
               (next_token, mem', save') \<Rightarrow> token_loop delim ext mem' save' next_token))"
  by pat_completeness auto
termination
proof (relation "measure (\<lambda>(delim, ext, mem, save, token).
          (case token of None \<Rightarrow> 0 | Some t \<Rightarrow> Suc (length mem - save)))", goal_cases)
  case 1
  show ?case by simp
next
  case (2 delim ext mem save token x2 x2a x y xa ya)
  show ?case
  proof (cases x)
    case None
    then show ?thesis by simp
  next
    case (Some t)
    with 2 have "strtok mem None delim save = (Some t, xa, ya)" by simp
    from strtok_progress [OF this] Some show ?thesis by auto
  qed
qed

function line_loop :: "string \<Rightarrow> string \<Rightarrow> string \<Rightarrow> fault + string option" where
  "line_loop delim ext stream =
     (case fgets BUFSIZ stream of
        None \<Rightarrow> Inr None
      | Some (buffer, stream') \<Rightarrow>
          (case strtok buffer (Some 0) delim 0 of
             (token, mem, save) \<Rightarrow>
               (case token_loop delim ext mem save token of
                  Inl f \<Rightarrow> Inl f
                | Inr (Some mimetype) \<Rightarrow> Inr (Some mimetype)
                | Inr None \<Rightarrow> line_loop delim ext stream')))"
  by pat_completeness auto
termination
  by (relation "measure (\<lambda>(delim, ext, stream). length stream)")
    (auto dest: fgets_progress)

declare token_loop.simps [simp del]
declare line_loop.simps [simp del]

text \<open>
  What the function does to the outside: it opens a file, and writes a message to
  \<^verbatim>\<open>stderr\<close> when that fails.
\<close>

datatype io_event = Fopen string | Stderr

definition determine_mimetype :: "config \<Rightarrow> filesystem \<Rightarrow> string option \<Rightarrow> io_event list \<times> (fault + string)" where
  "determine_mimetype cfg fs path =
     (case path of
        None \<Rightarrow> ([], Inr (DefaultMimeType cfg))
      | Some p \<Rightarrow>
          (case strrchr p CHR ''.'' of
             None \<Rightarrow> ([], Inr (DefaultMimeType cfg))
           | Some temp \<Rightarrow>
               let ext = drop (temp + 1) p
               in (case contents fs (MimeTypesPath cfg) of
                     None \<Rightarrow> ([Fopen (MimeTypesPath cfg), Stderr], Inr (DefaultMimeType cfg))
                   | Some stream \<Rightarrow>
                       ([Fopen (MimeTypesPath cfg)],
                        (case line_loop (WHITESPACE cfg) ext stream of
                           Inl f \<Rightarrow> Inl f
                         | Inr (Some mimetype) \<Rightarrow> Inr mimetype
                         | Inr None \<Rightarrow> Inr (DefaultMimeType cfg))))))"

subsection \<open>The rules file as a list of lines and tokens\<close>

text \<open>
  The vocabulary in which the behaviour of \<^verbatim>\<open>determine_mimetype\<close> is stated: the lines
  of the rules file as successive calls of \<^verbatim>\<open>fgets\<close> deliver them, the tokens of a line
  (its maximal runs of bytes that are not delimiters), and a string without the spaces
  at its end.
\<close>

function lines_read :: "string \<Rightarrow> string list" where
  "lines_read stream =
     (case fgets BUFSIZ stream of
        None \<Rightarrow> []
      | Some (buffer, stream') \<Rightarrow> string_at buffer 0 # lines_read stream')"
  by pat_completeness auto
termination
  by (relation "measure length") (auto dest: fgets_progress)

declare lines_read.simps [simp del]

function tokens :: "string \<Rightarrow> string \<Rightarrow> string list" where
  "tokens delim s =
     (case dropWhile (\<lambda>c. c \<in> set delim) s of
        [] \<Rightarrow> []
      | c # t \<Rightarrow>
          takeWhile (\<lambda>c. c \<notin> set delim) (c # t) #
          tokens delim (dropWhile (\<lambda>c. c \<notin> set delim) (c # t)))"
  by pat_completeness auto
termination
proof (relation "measure (\<lambda>(delim, s). length s)", goal_cases)
  case 1
  show ?case by simp
next
  case (2 delim s c t)
  have "dropWhile (\<lambda>c. c \<in> set delim) s \<noteq> []"
    using 2 by (metis list.distinct(1))
  then have "hd (dropWhile (\<lambda>c. c \<in> set delim) s) \<notin> set delim"
    by (rule hd_dropWhile)
  then have "c \<notin> set delim"
    using 2 by simp
  moreover have "length (dropWhile (\<lambda>c. c \<notin> set delim) t) \<le> length t"
    by (rule length_dropWhile_le)
  moreover have "length (c # t) \<le> length s"
    using length_dropWhile_le [of "\<lambda>c. c \<in> set delim" s] 2 by simp
  ultimately show ?case by simp
qed

declare tokens.simps [simp del]

definition rtrim :: "string \<Rightarrow> string" where
  "rtrim s = rev (dropWhile isspace (rev s))"

text \<open>
  A line matches an extension when one of its tokens, the spaces at its start skipped,
  is the extension. The text returned for a matching line runs from the start of the
  line to the end of its first token, without the spaces at its end (the first byte
  stays in any case).
\<close>

definition line_matches :: "string \<Rightarrow> string \<Rightarrow> string \<Rightarrow> bool" where
  "line_matches delim ext l = (ext \<in> set (map (dropWhile isspace) (tokens delim l)))"

definition returned_text :: "string \<Rightarrow> string \<Rightarrow> string" where
  "returned_text delim l =
     (case takeWhile (\<lambda>c. c \<in> set delim) l @
           takeWhile (\<lambda>c. c \<notin> set delim) (dropWhile (\<lambda>c. c \<in> set delim) l) of
        [] \<Rightarrow> []
      | c # cs \<Rightarrow> c # rtrim cs)"

text \<open>
  The words of the specification: the leading type-name field of a line is everything
  before its first whitespace run; a line is a match when a token after the first is the
  extension; the file's first such line gives the type, trailing whitespace trimmed. The
  final segment of a path is what follows its last separator.
\<close>

definition type_field :: "string \<Rightarrow> string \<Rightarrow> string" where
  "type_field delim l = takeWhile (\<lambda>c. c \<notin> set delim) l"

definition spec_line_matches :: "string \<Rightarrow> string \<Rightarrow> string \<Rightarrow> bool" where
  "spec_line_matches delim ext l = (ext \<in> set (tl (tokens delim l)))"

definition spec_mimetype :: "config \<Rightarrow> string \<Rightarrow> string \<Rightarrow> string" where
  "spec_mimetype cfg rules ext =
     (case find (spec_line_matches (WHITESPACE cfg) ext) (lines_read rules) of
        None \<Rightarrow> DefaultMimeType cfg
      | Some l \<Rightarrow> rtrim (type_field (WHITESPACE cfg) l))"

definition final_segment :: "string \<Rightarrow> string" where
  "final_segment p = rev (takeWhile (\<lambda>c. c \<noteq> CHR ''/'') (rev p))"

subsection \<open>A configuration and file systems to run the functions on\<close>

definition example_config :: config where
  "example_config =
     \<lparr>RootPath = ''/srv/www'', MimeTypesPath = ''/etc/mime.types'',
      DefaultMimeType = ''text/plain'', WHITESPACE = [CHR 0x20, CHR 0x09, CHR 0x0A]\<rparr>"

text \<open>
  A rules file of three lines, the last two of which both list \<^verbatim>\<open>html\<close>, and a file
  system: a server root \<^verbatim>\<open>/srv/www\<close> with one file in it, sibling directories beside
  it, and \<^verbatim>\<open>/var/www\<close>, a symbolic link to the root.
\<close>

definition example_rules :: string where
  "example_rules =
     ''text/plain txt\<newline>'' @
     ''text/html  htm html\<newline>'' @
     ''application/xhtml+xml html\<newline>''"

definition example_filesystem :: filesystem where
  "example_filesystem =
     \<lparr>realpath = map_of
        [(''/srv/www'', ''/srv/www''),
         (''/srv/www/index.html'', ''/srv/www/index.html''),
         (''/srv/www/../www2/secret.txt'', ''/srv/www2/secret.txt''),
         (''/srv/www/../wwwhack/index.html'', ''/srv/wwwhack/index.html''),
         (''/srv/www/../../etc/passwd'', ''/etc/passwd''),
         (''/var/www'', ''/srv/www'')],
      contents = map_of [(''/etc/mime.types'', example_rules)]\<rparr>"

text \<open>A rules file of two lines, the first of them the single token \<^verbatim>\<open>html\<close>.\<close>

definition two_line_rules :: string where
  "two_line_rules = ''html\<newline>'' @ ''text/html htm html\<newline>''"

definition two_line_filesystem :: filesystem where
  "two_line_filesystem =
     \<lparr>realpath = Map.empty, contents = map_of [(''/etc/mime.types'', two_line_rules)]\<rparr>"

text \<open>A rules file whose only line is a type name with no extension after it.\<close>

definition type_only_rules :: string where
  "type_only_rules = ''html\<newline>''"

definition type_only_filesystem :: filesystem where
  "type_only_filesystem =
     \<lparr>realpath = Map.empty, contents = map_of [(''/etc/mime.types'', type_only_rules)]\<rparr>"

text \<open>The enumerators numbered from zero, as C numbers them when none is given a value.\<close>

definition example_status_enum :: status_enum where
  "example_status_enum =
     \<lparr>HTTP_STATUS_OK = 0, HTTP_STATUS_BAD_REQUEST = 1, HTTP_STATUS_NOT_FOUND = 2,
      HTTP_STATUS_INTERNAL_SERVER_ERROR = 3\<rparr>"

subsection \<open>Facts about the library functions\<close>

lemma strncmp_eq_0_iff: "strncmp p r (length r) = 0 \<longleftrightarrow> prefix r p"
proof (induction r arbitrary: p)
  case Nil
  show ?case by simp
next
  case (Cons b r)
  show ?case
  proof (cases p)
    case Nil
    then show ?thesis by simp
  next
    case (Cons a p')
    with Cons.IH [of p'] show ?thesis by simp
  qed
qed

lemma strrchr_None: "strrchr s c = None \<longleftrightarrow> c \<notin> set s"
  by (induction s) (auto split: option.splits)

lemma isspace_NUL: "\<not> isspace NUL"
  by (simp add: isspace_def NUL_def)

subsection \<open>The request path\<close>

lemma determine_request_path_fits:
  assumes "length (RootPath cfg) + length uri < BUFSIZ"
  shows "determine_request_path cfg fs uri =
    Inr (case realpath fs (RootPath cfg @ uri) of
           None \<Rightarrow> None
         | Some p \<Rightarrow> if prefix (RootPath cfg) p then Some p else None)"
  using assms
  by (simp add: determine_request_path_def sprintf_ss_def strncmp_eq_0_iff split: option.split)

text \<open>
  C1, as amended. When the root and the URI together fit the buffer, the result is
  absent or it is the path that \<^verbatim>\<open>realpath\<close> gives for the root followed by the URI,
  and that path begins with the root as a literal prefix.
\<close>

theorem determine_request_path_prefix:
  assumes "length (RootPath cfg) + length uri < BUFSIZ"
  shows "determine_request_path cfg fs uri = Inr None \<or>
    (\<exists>p. determine_request_path cfg fs uri = Inr (Some p) \<and>
         realpath fs (RootPath cfg @ uri) = Some p \<and> prefix (RootPath cfg) p)"
  by (simp add: determine_request_path_fits [OF assms] split: option.split)

theorem determine_request_path_prefix_witness:
  "length (RootPath example_config) + length ''/index.html'' < BUFSIZ \<and>
   determine_request_path example_config example_filesystem ''/index.html'' =
     Inr (Some ''/srv/www/index.html'') \<and>
   realpath example_filesystem (RootPath example_config @ ''/index.html'') =
     Some ''/srv/www/index.html'' \<and>
   prefix (RootPath example_config) ''/srv/www/index.html''"
  using determine_request_path_prefix [of example_config "''/index.html''" example_filesystem]
  by (simp add: determine_request_path_def sprintf_ss_def example_config_def
      example_filesystem_def BUFSIZ_def)

text \<open>
  C1 as stated fails: a URI that climbs out of the root and into a sibling directory
  whose name continues the root's name is answered with a path outside the root
  directory.
\<close>

theorem sibling_directory_counterexample:
  "determine_request_path example_config example_filesystem ''/../www2/secret.txt'' =
     Inr (Some ''/srv/www2/secret.txt'') \<and>
   \<not> within_directory (RootPath example_config) ''/srv/www2/secret.txt''"
  by (simp add: determine_request_path_def sprintf_ss_def BUFSIZ_def example_config_def
      example_filesystem_def within_directory_def)

lemma determine_request_path_too_long:
  assumes "BUFSIZ \<le> length (RootPath cfg) + length uri"
  shows "determine_request_path cfg fs uri = Inl BufferOverrun"
  using assms by (simp add: determine_request_path_def sprintf_ss_def)

text \<open>
  C2. A root and a URI of \<^verbatim>\<open>BUFSIZ\<close> bytes together: \<^verbatim>\<open>sprintf\<close> writes past the end of
  the buffer; the function does not answer with an absent result.
\<close>

theorem determine_request_path_overrun:
  "determine_request_path example_config example_filesystem
     (CHR ''/'' # replicate 8183 CHR ''a'') = Inl BufferOverrun"
  by (simp add: determine_request_path_def sprintf_ss_def BUFSIZ_def example_config_def)

text \<open>
  C3. Once the candidate path is formed and canonicalized, the result is decided by
  one test on the canonical path: whether its first bytes, as many as the root has, are
  the root. Nothing is asked of the byte after them.
\<close>

theorem sandbox_check_is_literal_prefix:
  assumes "sprintf_ss BUFSIZ (RootPath cfg) uri = Inr candidate"
    and "realpath fs candidate = Some p"
  shows "determine_request_path cfg fs uri =
    Inr (if take (length (RootPath cfg)) p = RootPath cfg then Some p else None)"
proof -
  have "strncmp p (RootPath cfg) (length (RootPath cfg)) = 0 \<longleftrightarrow>
      take (length (RootPath cfg)) p = RootPath cfg"
    unfolding strncmp_eq_0_iff
    by (metis append_take_drop_id prefix_def append_eq_conv_conj)
  with assms show ?thesis
    by (simp add: determine_request_path_def)
qed

theorem sandbox_check_is_literal_prefix_witness:
  "sprintf_ss BUFSIZ (RootPath example_config) ''/../wwwhack/index.html'' =
     Inr ''/srv/www/../wwwhack/index.html'' \<and>
   realpath example_filesystem ''/srv/www/../wwwhack/index.html'' =
     Some ''/srv/wwwhack/index.html'' \<and>
   determine_request_path example_config example_filesystem ''/../wwwhack/index.html'' =
     Inr (Some ''/srv/wwwhack/index.html'')"
proof -
  have a: "sprintf_ss BUFSIZ (RootPath example_config) ''/../wwwhack/index.html'' =
      Inr ''/srv/www/../wwwhack/index.html''"
    by (simp add: sprintf_ss_def BUFSIZ_def example_config_def)
  have b: "realpath example_filesystem ''/srv/www/../wwwhack/index.html'' =
      Some ''/srv/wwwhack/index.html''"
    by (simp add: example_filesystem_def)
  show ?thesis
    using a b sandbox_check_is_literal_prefix [OF a b]
    by (simp add: example_config_def)
qed

text \<open>
  When the root and the URI together fit the buffer, a failure of \<^verbatim>\<open>realpath\<close> and a
  canonical path that does not begin with the root get the same result, the absent one.
\<close>

lemma canonicalization_failure_absent:
  assumes "length (RootPath cfg) + length uri < BUFSIZ"
    and "realpath fs (RootPath cfg @ uri) = None"
  shows "determine_request_path cfg fs uri = Inr None"
  using assms by (simp add: determine_request_path_fits)

lemma escape_absent:
  assumes "length (RootPath cfg) + length uri < BUFSIZ"
    and "realpath fs (RootPath cfg @ uri) = Some p"
    and "\<not> prefix (RootPath cfg) p"
  shows "determine_request_path cfg fs uri = Inr None"
  using assms by (simp add: determine_request_path_fits)

text \<open>
  C4. A URI of more than \<^verbatim>\<open>BUFSIZ\<close> bytes whose candidate path \<^verbatim>\<open>realpath\<close> fails on:
  the function does not get as far as \<^verbatim>\<open>realpath\<close>, \<^verbatim>\<open>sprintf\<close> writes past the end of
  the buffer, and the result is not the absent one.
\<close>

theorem long_missing_uri_overrun:
  "realpath example_filesystem
     (RootPath example_config @ ''/missing/'' @ replicate 8192 CHR ''x'') = None \<and>
   determine_request_path example_config example_filesystem
     (''/missing/'' @ replicate 8192 CHR ''x'') = Inl BufferOverrun"
  by (simp add: determine_request_path_def sprintf_ss_def BUFSIZ_def example_config_def
      example_filesystem_def)

text \<open>
  C10, as amended. For the empty URI, when the root fits the buffer, \<^verbatim>\<open>realpath\<close>
  succeeds on it and its canonical form begins with the root as written (as it does when
  the root is written in canonical form), the result is the canonical root.
\<close>

theorem empty_uri_gives_root:
  assumes "length (RootPath cfg) < BUFSIZ"
    and "realpath fs (RootPath cfg) = Some p"
    and "prefix (RootPath cfg) p"
  shows "determine_request_path cfg fs [] = Inr (Some p)"
  using assms by (simp add: determine_request_path_fits)

theorem empty_uri_gives_root_witness:
  "length (RootPath example_config) < BUFSIZ \<and>
   realpath example_filesystem (RootPath example_config) = Some ''/srv/www'' \<and>
   prefix (RootPath example_config) ''/srv/www'' \<and>
   determine_request_path example_config example_filesystem [] = Inr (Some ''/srv/www'')"
proof -
  have a: "length (RootPath example_config) < BUFSIZ"
    by (simp add: example_config_def BUFSIZ_def)
  have b: "realpath example_filesystem (RootPath example_config) = Some ''/srv/www''"
    by (simp add: example_config_def example_filesystem_def)
  have c: "prefix (RootPath example_config) ''/srv/www''"
    by (simp add: example_config_def)
  show ?thesis
    using a b c empty_uri_gives_root [OF a b c] by simp
qed

text \<open>
  C10 as stated fails: a root that is a symbolic link names an existing directory, and
  the empty URI is answered with an absent result.
\<close>

theorem root_through_link_counterexample:
  "realpath example_filesystem (RootPath (example_config\<lparr>RootPath := ''/var/www''\<rparr>)) =
     Some ''/srv/www'' \<and>
   determine_request_path (example_config\<lparr>RootPath := ''/var/www''\<rparr>) example_filesystem [] =
     Inr None"
  by (simp add: determine_request_path_def sprintf_ss_def BUFSIZ_def example_config_def
      example_filesystem_def)

subsection \<open>The two scanners\<close>

lemma skip_whitespace_loop_stops:
  assumes "s + length (takeWhile isspace (drop s mem)) < length mem"
  shows "skip_whitespace_loop mem s = Inr (s + length (takeWhile isspace (drop s mem)))"
  using assms
proof (induction mem s rule: skip_whitespace_loop.induct)
  case (1 mem s)
  from "1.prems" have lt: "s < length mem" by simp
  then have d: "drop s mem = mem ! s # drop (Suc s) mem"
    by (simp add: Cons_nth_drop_Suc)
  show ?case
  proof (cases "isspace (mem ! s)")
    case True
    with "1.prems" d have "s + 1 + length (takeWhile isspace (drop (s + 1) mem)) < length mem"
      by simp
    with "1.IH" lt True
    have "skip_whitespace_loop mem (s + 1) =
        Inr (s + 1 + length (takeWhile isspace (drop (s + 1) mem)))"
      by simp
    with lt True d show ?thesis
      by (simp add: skip_whitespace_loop.simps [of mem s])
  next
    case False
    with lt d show ?thesis
      by (simp add: skip_whitespace_loop.simps [of mem s])
  qed
qed

lemma skip_nonwhitespace_loop_stops:
  assumes "s + length (takeWhile (\<lambda>c. \<not> isspace c) (drop s mem)) < length mem"
  shows "skip_nonwhitespace_loop mem s =
    Inr (s + length (takeWhile (\<lambda>c. \<not> isspace c) (drop s mem)))"
  using assms
proof (induction mem s rule: skip_nonwhitespace_loop.induct)
  case (1 mem s)
  from "1.prems" have lt: "s < length mem" by simp
  then have d: "drop s mem = mem ! s # drop (Suc s) mem"
    by (simp add: Cons_nth_drop_Suc)
  show ?case
  proof (cases "isspace (mem ! s)")
    case False
    with "1.prems" d
    have "s + 1 + length (takeWhile (\<lambda>c. \<not> isspace c) (drop (s + 1) mem)) < length mem"
      by simp
    with "1.IH" lt False
    have "skip_nonwhitespace_loop mem (s + 1) =
        Inr (s + 1 + length (takeWhile (\<lambda>c. \<not> isspace c) (drop (s + 1) mem)))"
      by simp
    with lt False d show ?thesis
      by (simp add: skip_nonwhitespace_loop.simps [of mem s])
  next
    case True
    with lt d show ?thesis
      by (simp add: skip_nonwhitespace_loop.simps [of mem s])
  qed
qed

lemma skip_nonwhitespace_loop_faults:
  assumes "\<forall>c \<in> set (drop s mem). \<not> isspace c"
  shows "skip_nonwhitespace_loop mem s = Inl OutOfBounds"
  using assms
proof (induction mem s rule: skip_nonwhitespace_loop.induct)
  case (1 mem s)
  show ?case
  proof (cases "length mem \<le> s")
    case True
    then show ?thesis by (simp add: skip_nonwhitespace_loop.simps [of mem s])
  next
    case False
    then have d: "drop s mem = mem ! s # drop (Suc s) mem"
      by (simp add: Cons_nth_drop_Suc)
    with "1.prems" have ns: "\<not> isspace (mem ! s)" and "\<forall>c \<in> set (drop (s + 1) mem). \<not> isspace c"
      by simp_all
    with "1.IH" False have "skip_nonwhitespace_loop mem (s + 1) = Inl OutOfBounds"
      by simp
    with False ns show ?thesis by (simp add: skip_nonwhitespace_loop.simps [of mem s])
  qed
qed

text \<open>
  What holds of the two scanners on a string \<open>str\<close> that is followed by its terminator:
  \<^verbatim>\<open>skip_whitespace\<close> stops at the end of the run of spaces at the start, the
  terminator at the latest; \<^verbatim>\<open>skip_nonwhitespace\<close> stops at the first space when the
  string has one; a null cursor is answered with a null cursor.
\<close>

lemma skip_whitespace_terminated:
  assumes "NUL \<notin> set str"
  shows "skip_whitespace (str @ NUL # rest) (Some 0) = Inr (Some (length (takeWhile isspace str)))"
proof -
  have "takeWhile isspace (str @ NUL # rest) = takeWhile isspace str"
    by (simp add: takeWhile_tail isspace_NUL)
  moreover have "length (takeWhile isspace str) \<le> length str"
    by (rule length_takeWhile_le)
  ultimately show ?thesis
    using skip_whitespace_loop_stops [of 0 "str @ NUL # rest"]
    by (simp add: skip_whitespace_def)
qed

lemma skip_whitespace_no_leading_space:
  assumes "NUL \<notin> set str" and "str = [] \<or> \<not> isspace (hd str)"
  shows "skip_whitespace (str @ NUL # rest) (Some 0) = Inr (Some 0)"
  using assms skip_whitespace_terminated [of str rest]
  by (cases str) auto

lemma skip_whitespace_all_space:
  assumes "\<forall>c \<in> set str. isspace c"
  shows "skip_whitespace (str @ NUL # rest) (Some 0) = Inr (Some (length str))"
proof -
  have "NUL \<notin> set str"
    using assms isspace_NUL by auto
  then have "skip_whitespace (str @ NUL # rest) (Some 0) =
      Inr (Some (length (takeWhile isspace str)))"
    by (rule skip_whitespace_terminated)
  moreover have "takeWhile isspace str = str"
    using assms by simp
  ultimately show ?thesis
    by (simp only:)
qed

lemma skip_nonwhitespace_to_space:
  assumes "\<exists>c \<in> set str. isspace c"
  shows "skip_nonwhitespace (str @ NUL # rest) (Some 0) =
    Inr (Some (length (takeWhile (\<lambda>c. \<not> isspace c) str)))"
proof -
  from assms obtain a b c where str: "str = a @ c # b" and c: "isspace c"
    and a: "\<forall>x \<in> set a. \<not> isspace x"
    by (metis split_list_first_prop)
  have t: "takeWhile (\<lambda>c. \<not> isspace c) (str @ NUL # rest) = a"
    using a c by (simp add: str takeWhile_append)
  have t': "takeWhile (\<lambda>c. \<not> isspace c) str = a"
    using a c by (simp add: str takeWhile_append)
  show ?thesis
    using skip_nonwhitespace_loop_stops [of 0 "str @ NUL # rest"] t t'
    by (simp add: skip_nonwhitespace_def str)
qed

lemma skip_null_cursor:
  "skip_whitespace mem None = Inr None" "skip_nonwhitespace mem None = Inr None"
  by (simp_all add: skip_whitespace_def skip_nonwhitespace_def)

lemma skip_nonwhitespace_without_space:
  assumes "\<forall>c \<in> set str. \<not> isspace c"
  shows "skip_nonwhitespace (str @ [NUL]) (Some 0) = Inl OutOfBounds"
  using assms skip_nonwhitespace_loop_faults [of 0 "str @ [NUL]"]
  by (auto simp: skip_nonwhitespace_def isspace_NUL)

text \<open>
  C8. On the string \<^verbatim>\<open>abc\<close>, \<^verbatim>\<open>skip_nonwhitespace\<close> does not stop at the terminator,
  which is not a space. When the string with its terminator is the whole object, the
  next read is outside it; when more bytes follow in the same buffer, the cursor comes to
  rest among them, beyond the end of the string.
\<close>

theorem skip_nonwhitespace_passes_terminator:
  "skip_nonwhitespace (''abc'' @ [NUL]) (Some 0) = Inl OutOfBounds \<and>
   skip_nonwhitespace (''abc'' @ [NUL] @ ''x y'') (Some 0) = Inr (Some 5)"
  by (simp add: skip_nonwhitespace_def skip_nonwhitespace_loop.simps isspace_def NUL_def)

subsection \<open>The status strings\<close>

text \<open>
  C9. With the four enumerators distinct, each is mapped to its string; a status that
  is none of them gets no string; and the teapot string, the last entry of the table, is
  the result for no status at all.
\<close>

theorem http_status_string_table:
  assumes "distinct [HTTP_STATUS_OK e, HTTP_STATUS_BAD_REQUEST e, HTTP_STATUS_NOT_FOUND e,
      HTTP_STATUS_INTERNAL_SERVER_ERROR e]"
  shows "http_status_string e (HTTP_STATUS_OK e) = Some ''200 OK'' \<and>
    http_status_string e (HTTP_STATUS_BAD_REQUEST e) = Some ''400 Bad Request'' \<and>
    http_status_string e (HTTP_STATUS_NOT_FOUND e) = Some ''404 Not Found'' \<and>
    http_status_string e (HTTP_STATUS_INTERNAL_SERVER_ERROR e) =
      Some ''500 Internal Server Error'' \<and>
    (\<forall>status. status \<notin> {HTTP_STATUS_OK e, HTTP_STATUS_BAD_REQUEST e, HTTP_STATUS_NOT_FOUND e,
        HTTP_STATUS_INTERNAL_SERVER_ERROR e} \<longrightarrow> http_status_string e status = None) \<and>
    StatusStrings ! 4 = ''418 I'm A Teapot'' \<and>
    (\<forall>status. http_status_string e status \<noteq> Some ''418 I'm A Teapot'')"
  using assms by (auto simp: http_status_string_def StatusStrings_def)

theorem http_status_string_table_witness:
  "distinct [HTTP_STATUS_OK example_status_enum, HTTP_STATUS_BAD_REQUEST example_status_enum,
      HTTP_STATUS_NOT_FOUND example_status_enum,
      HTTP_STATUS_INTERNAL_SERVER_ERROR example_status_enum] \<and>
   http_status_string example_status_enum 0 = Some ''200 OK'' \<and>
   http_status_string example_status_enum 1 = Some ''400 Bad Request'' \<and>
   http_status_string example_status_enum 2 = Some ''404 Not Found'' \<and>
   http_status_string example_status_enum 3 = Some ''500 Internal Server Error'' \<and>
   http_status_string example_status_enum 4 = None \<and>
   http_status_string example_status_enum 418 = None"
proof -
  have d: "distinct [HTTP_STATUS_OK example_status_enum,
      HTTP_STATUS_BAD_REQUEST example_status_enum, HTTP_STATUS_NOT_FOUND example_status_enum,
      HTTP_STATUS_INTERNAL_SERVER_ERROR example_status_enum]"
    by (simp add: example_status_enum_def)
  from http_status_string_table [OF d] d show ?thesis
    by (simp add: example_status_enum_def)
qed

subsection \<open>\<^verbatim>\<open>strtok\<close> on a buffer\<close>

text \<open>
  The three outcomes of a call, on a buffer written as the bytes before the place to
  start at, a run of delimiters, and then the terminator, or a token followed by the
  terminator, or a token followed by a delimiter.
\<close>

lemma strtok_none:
  assumes "(case str of None \<Rightarrow> save | Some p \<Rightarrow> p) = length pre"
    and "\<forall>c \<in> set ds. c \<noteq> NUL \<and> c \<in> set delim"
  shows "strtok (pre @ ds @ NUL # z) str delim save =
    (None, pre @ ds @ NUL # z, length pre + length ds)"
proof -
  have "strspn (pre @ ds @ NUL # z) (length pre) delim = length ds"
    using assms(2) by (simp add: strspn_def)
  with assms(1) show ?thesis
    by (simp add: strtok_def Let_def nth_append)
qed

lemma strtok_last:
  assumes "(case str of None \<Rightarrow> save | Some p \<Rightarrow> p) = length pre"
    and "\<forall>c \<in> set ds. c \<noteq> NUL \<and> c \<in> set delim"
    and "\<forall>c \<in> set tk. c \<noteq> NUL \<and> c \<notin> set delim"
    and "tk \<noteq> []"
  shows "strtok (pre @ ds @ tk @ NUL # z) str delim save =
    (Some (length pre + length ds), pre @ ds @ tk @ NUL # z,
     length pre + length ds + length tk)"
proof -
  from assms(4) obtain c tk' where tk: "tk = c # tk'" by (cases tk) auto
  have "strspn (pre @ ds @ tk @ NUL # z) (length pre) delim = length ds"
    using assms(2,3) by (simp add: strspn_def tk)
  moreover have "strcspn (pre @ ds @ tk @ NUL # z) (length pre + length ds) delim = length tk"
    using assms(3) by (simp add: strcspn_def)
  moreover have "(pre @ ds @ tk @ NUL # z) ! (length pre + length ds) = c"
    by (simp add: nth_append tk)
  moreover have "(pre @ ds @ tk @ NUL # z) ! (length pre + length ds + length tk) = NUL"
    by (simp add: nth_append)
  moreover have "c \<noteq> NUL" using assms(3) by (simp add: tk)
  ultimately show ?thesis
    using assms(1) by (simp add: strtok_def Let_def)
qed

lemma strtok_mid:
  assumes "(case str of None \<Rightarrow> save | Some p \<Rightarrow> p) = length pre"
    and "\<forall>c \<in> set ds. c \<noteq> NUL \<and> c \<in> set delim"
    and "\<forall>c \<in> set tk. c \<noteq> NUL \<and> c \<notin> set delim"
    and "tk \<noteq> []"
    and "x \<noteq> NUL" "x \<in> set delim"
  shows "strtok (pre @ ds @ tk @ x # y) str delim save =
    (Some (length pre + length ds), pre @ ds @ tk @ NUL # y,
     length pre + length ds + length tk + 1)"
proof -
  from assms(4) obtain c tk' where tk: "tk = c # tk'" by (cases tk) auto
  have "strspn (pre @ ds @ tk @ x # y) (length pre) delim = length ds"
    using assms(2,3) by (simp add: strspn_def tk)
  moreover have "strcspn (pre @ ds @ tk @ x # y) (length pre + length ds) delim = length tk"
    using assms(3,6) by (simp add: strcspn_def)
  moreover have "(pre @ ds @ tk @ x # y) ! (length pre + length ds) = c"
    by (simp add: nth_append tk)
  moreover have "(pre @ ds @ tk @ x # y) ! (length pre + length ds + length tk) = x"
    by (simp add: nth_append)
  moreover have "(pre @ ds @ tk @ x # y)[length pre + length ds + length tk := NUL] =
      pre @ ds @ tk @ NUL # y"
    by (simp add: list_update_append)
  moreover have "c \<noteq> NUL" using assms(3) by (simp add: tk)
  ultimately show ?thesis
    using assms(1,5) by (simp add: strtok_def Let_def)
qed

subsection \<open>Trimming and duplicating\<close>

lemma string_at_0:
  assumes "NUL \<notin> set F"
  shows "string_at (F @ NUL # w) 0 = F"
  using assms by (auto simp: string_at_def takeWhile_tail)

lemma rtrim_snoc: "rtrim (cs @ [x]) = (if isspace x then rtrim cs else cs @ [x])"
  by (simp add: rtrim_def)

lemma rtrim_append_spaces: "rtrim cs @ rev (takeWhile isspace (rev cs)) = cs"
proof -
  have "rev (takeWhile isspace (rev cs) @ dropWhile isspace (rev cs)) = cs"
    by simp
  then show ?thesis
    unfolding rtrim_def rev_append .
qed

lemma trim_loop_eq:
  assumes "prefix (c # cs) mem"
  shows "trim_loop mem 0 (length cs) = length (rtrim cs)"
  using assms
proof (induction cs rule: rev_induct)
  case Nil
  show ?case by (simp add: trim_loop.simps [of mem 0 0] rtrim_def)
next
  case (snoc x cs)
  from snoc.prems have p: "prefix (c # cs) mem"
    by (metis append_Cons append_prefixD)
  from snoc.prems obtain w where "mem = (c # cs) @ x # w"
    by (auto simp: prefix_def)
  then have x: "mem ! Suc (length cs) = x"
    by (metis length_Cons nth_append_length)
  show ?case
    using snoc.IH [OF p] x
    by (simp add: trim_loop.simps [of mem 0 "Suc (length cs)"] rtrim_snoc)
qed

lemma trim_and_dup_eq:
  assumes "NUL \<notin> set (c # cs)"
  shows "trim_and_dup ((c # cs) @ NUL # w) 0 = Inr (c # rtrim cs)"
proof -
  let ?mem = "(c # cs) @ NUL # w"
  define sp where "sp = rev (takeWhile isspace (rev cs))"
  have cs: "cs = rtrim cs @ sp"
    by (simp add: sp_def rtrim_append_spaces)
  have len: "strlen ?mem 0 = Suc (length cs)"
    unfolding strlen_def using string_at_0 [OF assms, of w] by simp
  have bk: "trim_loop ?mem 0 (length cs) = length (rtrim cs)"
    by (rule trim_loop_eq) simp
  have "set (rtrim cs) \<subseteq> set cs"
    unfolding rtrim_def using set_dropWhileD [of _ isspace "rev cs"] by auto
  with assms have nul: "NUL \<notin> set (c # rtrim cs)"
    by auto
  have m: "?mem = (c # rtrim cs) @ (sp @ NUL # w)"
    using cs by (metis append_Cons append_assoc)
  have "list_update ((c # rtrim cs) @ (sp @ NUL # w)) (length (c # rtrim cs)) NUL =
      (c # rtrim cs) @ (sp @ NUL # w)[0 := NUL]"
    by (simp add: list_update_append)
  with m have "list_update ?mem (Suc (length (rtrim cs))) NUL =
      (c # rtrim cs) @ (sp @ NUL # w)[0 := NUL]"
    by (metis length_Cons)
  moreover have "(sp @ NUL # w)[0 := NUL] = NUL # tl (sp @ NUL # w)"
    by (cases sp) simp_all
  ultimately have "string_at (list_update ?mem (Suc (length (rtrim cs))) NUL) 0 = c # rtrim cs"
    using string_at_0 [OF nul] by simp
  with len bk show ?thesis
    by (simp add: trim_and_dup_def Let_def)
qed

subsection \<open>The loop over the tokens of a line\<close>

lemma tokens_Nil:
  assumes "dropWhile (\<lambda>c. c \<in> set delim) s = []"
  shows "tokens delim s = []"
  by (subst tokens.simps) (simp only: assms list.case)

lemma tokens_Cons:
  assumes "dropWhile (\<lambda>c. c \<in> set delim) s = c # t"
  shows "tokens delim s =
     takeWhile (\<lambda>c. c \<notin> set delim) (c # t) #
     tokens delim (dropWhile (\<lambda>c. c \<notin> set delim) (c # t))"
  by (subst tokens.simps) (simp only: assms list.case)

lemma tokens_skip: "x \<in> set delim \<Longrightarrow> tokens delim (x # r) = tokens delim r"
  by (simp add: tokens.simps [of delim "x # r"] tokens.simps [of delim r])

lemma token_loop_step:
  assumes "NUL \<notin> set tok"
  shows "token_loop delim ext (a @ tok @ NUL # b) save (Some (length a)) =
    (if dropWhile isspace tok = ext
     then map_sum id Some (trim_and_dup (a @ tok @ NUL # b) 0)
     else (case strtok (a @ tok @ NUL # b) None delim save of
             (next_token, mem', save') \<Rightarrow> token_loop delim ext mem' save' next_token))"
proof -
  let ?mem = "a @ tok @ NUL # b"
  let ?k = "length (takeWhile isspace tok)"
  have tw: "takeWhile isspace (drop (length a) ?mem) = takeWhile isspace tok"
    by (simp add: takeWhile_tail isspace_NUL)
  have k: "?k \<le> length tok"
    by (rule length_takeWhile_le)
  then have "length a + ?k < length ?mem"
    by simp
  with tw have "skip_whitespace_loop ?mem (length a) = Inr (length a + ?k)"
    using skip_whitespace_loop_stops [of "length a" ?mem] by simp
  then have sk: "skip_whitespace ?mem (Some (length a)) = Inr (Some (length a + ?k))"
    by (simp add: skip_whitespace_def)
  have "drop (length a + ?k) ?mem = drop ?k tok @ NUL # b"
    using k by simp
  moreover have "NUL \<notin> set (drop ?k tok)"
    using assms by (meson in_set_dropD)
  ultimately have "string_at ?mem (length a + ?k) = drop ?k tok"
    by (auto simp: string_at_def takeWhile_tail)
  then have "string_at ?mem (length a + ?k) = dropWhile isspace tok"
    by (simp add: dropWhile_eq_drop)
  with sk show ?thesis
    by (simp add: token_loop.simps streq_def)
qed

text \<open>A string without NUL is all delimiters, or ends in its first token, or goes on after it.\<close>

lemma split_tokens:
  assumes "NUL \<notin> set s"
  obtains (none) "\<forall>c \<in> set s. c \<noteq> NUL \<and> c \<in> set delim" "tokens delim s = []"
  | (last) ds tk where "s = ds @ tk" "tk \<noteq> []"
      "\<forall>c \<in> set ds. c \<noteq> NUL \<and> c \<in> set delim"
      "\<forall>c \<in> set tk. c \<noteq> NUL \<and> c \<notin> set delim"
      "tokens delim s = [tk]"
      "ds = takeWhile (\<lambda>c. c \<in> set delim) s"
      "tk = takeWhile (\<lambda>c. c \<notin> set delim) (dropWhile (\<lambda>c. c \<in> set delim) s)"
  | (mid) ds tk x rest where "s = ds @ tk @ x # rest" "tk \<noteq> []"
      "\<forall>c \<in> set ds. c \<noteq> NUL \<and> c \<in> set delim"
      "\<forall>c \<in> set tk. c \<noteq> NUL \<and> c \<notin> set delim"
      "x \<noteq> NUL" "x \<in> set delim"
      "tokens delim s = tk # tokens delim rest"
      "ds = takeWhile (\<lambda>c. c \<in> set delim) s"
      "tk = takeWhile (\<lambda>c. c \<notin> set delim) (dropWhile (\<lambda>c. c \<in> set delim) s)"
proof -
  let ?D = "\<lambda>c. c \<in> set delim" and ?N = "\<lambda>c. c \<notin> set delim"
  define ds where "ds = takeWhile ?D s"
  define r where "r = dropWhile ?D s"
  define tk where "tk = takeWhile ?N r"
  define rest where "rest = dropWhile ?N r"
  have s: "s = ds @ r" and r: "r = tk @ rest"
    by (simp_all add: ds_def r_def tk_def rest_def)
  have dsd: "ds = takeWhile ?D s"
    by (simp add: ds_def)
  have tkd: "tk = takeWhile ?N (dropWhile ?D s)"
    by (simp add: tk_def r_def)
  have ds: "\<forall>c \<in> set ds. c \<noteq> NUL \<and> c \<in> set delim"
    using assms set_takeWhileD [of _ ?D s] unfolding ds_def by blast
  have "set tk \<subseteq> set s"
    using s r by auto
  then have tk: "\<forall>c \<in> set tk. c \<noteq> NUL \<and> c \<notin> set delim"
    using assms set_takeWhileD [of _ ?N r] unfolding tk_def by blast
  show thesis
  proof (cases r)
    case Nil
    then have "tokens delim s = []"
      unfolding r_def by (rule tokens_Nil)
    moreover have "\<forall>c \<in> set s. c \<noteq> NUL \<and> c \<in> set delim"
      using ds s Nil by simp
    ultimately show thesis by (intro none)
  next
    case (Cons c t)
    then have "r \<noteq> []" by simp
    then have "\<not> ?D (hd r)"
      unfolding r_def by (rule hd_dropWhile)
    with Cons have "tk \<noteq> []"
      by (simp add: tk_def)
    have tokens: "tokens delim s = tk # tokens delim rest"
      using tokens_Cons [of delim s c t] Cons
      by (simp add: r_def [symmetric] tk_def rest_def)
    show thesis
    proof (cases rest)
      case Nil
      have "tokens delim rest = []"
        using Nil by (simp add: tokens_Nil)
      with tokens have "tokens delim s = [tk]" by simp
      moreover have "s = ds @ tk" using s r Nil by simp
      ultimately show thesis
        using \<open>tk \<noteq> []\<close> ds tk dsd tkd by (intro last)
    next
      case (Cons x rest')
      then have "rest \<noteq> []" by simp
      then have "\<not> ?N (hd rest)"
        unfolding rest_def by (rule hd_dropWhile)
      with Cons have x: "x \<in> set delim" by simp
      have "x \<in> set s" using s r Cons by simp
      with assms have "x \<noteq> NUL" by auto
      have "tokens delim rest = tokens delim rest'"
        using x Cons by (simp add: tokens_skip)
      with tokens have "tokens delim s = tk # tokens delim rest'" by simp
      moreover have "s = ds @ tk @ x # rest'" using s r Cons by simp
      ultimately show thesis
        using \<open>tk \<noteq> []\<close> ds tk x \<open>x \<noteq> NUL\<close> dsd tkd by (intro mid)
    qed
  qed
qed

lemma token_loop_run:
  assumes "NUL \<notin> set s" "NUL \<notin> set tok" "NUL \<notin> set (c # cs)"
    and "a @ tok @ NUL # b = (c # cs) @ NUL # p @ s @ NUL # z"
  shows "token_loop delim ext (a @ tok @ NUL # b) (length ((c # cs) @ NUL # p)) (Some (length a)) =
    Inr (if ext \<in> set (map (dropWhile isspace) (tok # tokens delim s))
         then Some (c # rtrim cs) else None)"
  using assms
proof (induction "length s" arbitrary: s p z a tok b rule: less_induct)
  case less
  let ?pre = "(c # cs) @ NUL # p"
  let ?mem = "a @ tok @ NUL # b"
  note mem = \<open>?mem = (c # cs) @ NUL # p @ s @ NUL # z\<close>
  have trim: "trim_and_dup ?mem 0 = Inr (c # rtrim cs)"
    unfolding mem using \<open>NUL \<notin> set (c # cs)\<close> by (rule trim_and_dup_eq)
  have start: "(case None of None \<Rightarrow> length ?pre | Some p \<Rightarrow> p) = length ?pre"
    by simp
  show ?case
  proof (cases "dropWhile isspace tok = ext")
    case True
    then show ?thesis
      by (simp add: token_loop_step [OF \<open>NUL \<notin> set tok\<close>] trim)
  next
    case False
    have step: "token_loop delim ext ?mem (length ?pre) (Some (length a)) =
        (case strtok ?mem None delim (length ?pre) of
           (next_token, mem', save') \<Rightarrow> token_loop delim ext mem' save' next_token)"
      by (simp only: token_loop_step [OF \<open>NUL \<notin> set tok\<close>] False if_False)
    from \<open>NUL \<notin> set s\<close> show ?thesis
    proof (cases rule: split_tokens [where delim = delim])
      case none
      have "strtok (?pre @ s @ NUL # z) None delim (length ?pre) =
          (None, ?pre @ s @ NUL # z, length ?pre + length s)"
        using start none(1) by (rule strtok_none)
      then have "strtok ?mem None delim (length ?pre) = (None, ?mem, length ?pre + length s)"
        by (simp add: mem)
      then have "token_loop delim ext ?mem (length ?pre) (Some (length a)) = Inr None"
        by (simp only: step prod.case token_loop.simps(1))
      with False none(2) show ?thesis
        by auto
    next
      case (last ds tk)
      have m: "?mem = ?pre @ ds @ tk @ NUL # z"
        by (simp add: mem last(1))
      have st: "strtok (?pre @ ds @ tk @ NUL # z) None delim (length ?pre) =
          (Some (length ?pre + length ds), ?pre @ ds @ tk @ NUL # z,
           length ?pre + length ds + length tk)"
        using start last(3,4,2) by (rule strtok_last)
      have "NUL \<notin> set tk" using last(4) by auto
      moreover have "(?pre @ ds) @ tk @ NUL # z = (c # cs) @ NUL # (p @ ds @ tk) @ [] @ NUL # z"
        by simp
      moreover have "length ([] :: string) < length s"
        using last(1,2) by simp
      ultimately have "token_loop delim ext ((?pre @ ds) @ tk @ NUL # z)
          (length ((c # cs) @ NUL # (p @ ds @ tk))) (Some (length (?pre @ ds))) =
        Inr (if ext \<in> set (map (dropWhile isspace) (tk # tokens delim []))
             then Some (c # rtrim cs) else None)"
        using less.hyps [of "[]" tk "?pre @ ds" z "p @ ds @ tk"] \<open>NUL \<notin> set (c # cs)\<close>
        by simp
      moreover have "tokens delim [] = []"
        by (simp add: tokens_Nil)
      ultimately have ih: "token_loop delim ext (?pre @ ds @ tk @ NUL # z)
          (length ?pre + length ds + length tk) (Some (length ?pre + length ds)) =
        Inr (if ext = dropWhile isspace tk then Some (c # rtrim cs) else None)"
        by (simp add: add.assoc)
      have "strtok ?mem None delim (length ?pre) =
          (Some (length ?pre + length ds), ?pre @ ds @ tk @ NUL # z,
           length ?pre + length ds + length tk)"
        using st by (simp only: m)
      then have "token_loop delim ext ?mem (length ?pre) (Some (length a)) =
          Inr (if ext = dropWhile isspace tk then Some (c # rtrim cs) else None)"
        by (simp only: step prod.case ih)
      with False last(5) show ?thesis
        by auto
    next
      case (mid ds tk x rest)
      have m: "?mem = ?pre @ ds @ tk @ x # rest @ NUL # z"
        by (simp add: mem mid(1))
      have st: "strtok (?pre @ ds @ tk @ x # rest @ NUL # z) None delim (length ?pre) =
          (Some (length ?pre + length ds), ?pre @ ds @ tk @ NUL # rest @ NUL # z,
           length ?pre + length ds + length tk + 1)"
        using start mid(3,4,2,5,6) by (rule strtok_mid)
      have "NUL \<notin> set tk" using mid(4) by auto
      moreover have "NUL \<notin> set rest" using \<open>NUL \<notin> set s\<close> mid(1) by simp
      moreover have "(?pre @ ds) @ tk @ NUL # rest @ NUL # z =
          (c # cs) @ NUL # (p @ ds @ tk @ [NUL]) @ rest @ NUL # z"
        by simp
      moreover have "length rest < length s"
        using mid(1) by simp
      ultimately have "token_loop delim ext ((?pre @ ds) @ tk @ NUL # rest @ NUL # z)
          (length ((c # cs) @ NUL # (p @ ds @ tk @ [NUL]))) (Some (length (?pre @ ds))) =
        Inr (if ext \<in> set (map (dropWhile isspace) (tk # tokens delim rest))
             then Some (c # rtrim cs) else None)"
        using less.hyps [of rest tk "?pre @ ds" "rest @ NUL # z" "p @ ds @ tk @ [NUL]" z]
          \<open>NUL \<notin> set (c # cs)\<close>
        by simp
      then have ih: "token_loop delim ext (?pre @ ds @ tk @ NUL # rest @ NUL # z)
          (length ?pre + length ds + length tk + 1) (Some (length ?pre + length ds)) =
        Inr (if ext \<in> set (map (dropWhile isspace) (tk # tokens delim rest))
             then Some (c # rtrim cs) else None)"
        by (simp add: add.assoc)
      have "strtok ?mem None delim (length ?pre) =
          (Some (length ?pre + length ds), ?pre @ ds @ tk @ NUL # rest @ NUL # z,
           length ?pre + length ds + length tk + 1)"
        using st by (simp only: m)
      then have "token_loop delim ext ?mem (length ?pre) (Some (length a)) =
          Inr (if ext \<in> set (map (dropWhile isspace) (tk # tokens delim rest))
               then Some (c # rtrim cs) else None)"
        by (simp only: step prod.case ih)
      with False mid(7) show ?thesis
        by auto
    qed
  qed
qed

lemma token_loop_at_end:
  assumes "NUL \<notin> set tok" "NUL \<notin> set (c # cs)" "a @ tok = c # cs"
  shows "token_loop delim ext (a @ tok @ NUL # z) (length (c # cs)) (Some (length a)) =
    Inr (if ext = dropWhile isspace tok then Some (c # rtrim cs) else None)"
proof -
  let ?mem = "a @ tok @ NUL # z"
  have mem: "?mem = (c # cs) @ NUL # z"
    using assms(3) by (metis append_assoc)
  have trim: "trim_and_dup ?mem 0 = Inr (c # rtrim cs)"
    unfolding mem using assms(2) by (rule trim_and_dup_eq)
  have "strtok ((c # cs) @ [] @ NUL # z) None delim (length (c # cs)) =
      (None, (c # cs) @ [] @ NUL # z, length (c # cs) + length ([] :: string))"
    by (rule strtok_none) simp_all
  then have "strtok ?mem None delim (length (c # cs)) = (None, ?mem, length (c # cs))"
    unfolding mem by simp
  then show ?thesis
    by (auto simp only: token_loop_step [OF assms(1)] trim prod.case token_loop.simps(1)
        map_sum.simps id_apply split: if_splits)
qed

lemma first_line:
  assumes "NUL \<notin> set line"
  shows "(case strtok (line @ NUL # z) (Some 0) delim 0 of
            (token, mem, save) \<Rightarrow> token_loop delim ext mem save token) =
    Inr (if line_matches delim ext line then Some (returned_text delim line) else None)"
  using assms
proof (cases rule: split_tokens [where delim = delim])
  case none
  have "strtok ([] @ line @ NUL # z) (Some 0) delim 0 =
      (None, [] @ line @ NUL # z, length ([] :: string) + length line)"
    using none(1) by (intro strtok_none) simp_all
  with none(2) show ?thesis
    by (simp add: token_loop.simps(1) line_matches_def)
next
  case (last ds tk)
  from last(2) obtain c cs where F: "ds @ tk = c # cs"
    by (cases "ds @ tk") auto
  have nul: "NUL \<notin> set tk" "NUL \<notin> set (c # cs)"
    using last(3,4) unfolding F [symmetric] by auto
  have "strtok ([] @ ds @ tk @ NUL # z) (Some 0) delim 0 =
      (Some (length ([] :: string) + length ds), [] @ ds @ tk @ NUL # z,
       length ([] :: string) + length ds + length tk)"
    using last(3,4,2) by (intro strtok_last) simp_all
  then have st: "strtok (line @ NUL # z) (Some 0) delim 0 =
      (Some (length ds), ds @ tk @ NUL # z, length (c # cs))"
    using F [symmetric] by (simp add: last(1))
  have "returned_text delim line = c # rtrim cs"
    unfolding returned_text_def last(6,7) [symmetric] F by simp
  moreover have "line_matches delim ext line \<longleftrightarrow> ext = dropWhile isspace tk"
    by (simp add: line_matches_def last(5))
  ultimately show ?thesis
    by (simp only: st prod.case token_loop_at_end [OF nul F])
next
  case (mid ds tk x rest)
  from mid(2) obtain c cs where F: "ds @ tk = c # cs"
    by (cases "ds @ tk") auto
  have nul: "NUL \<notin> set rest" "NUL \<notin> set tk" "NUL \<notin> set (c # cs)"
    using mid(3,4) assms unfolding F [symmetric] by (auto simp: mid(1))
  have "strtok ([] @ ds @ tk @ x # rest @ NUL # z) (Some 0) delim 0 =
      (Some (length ([] :: string) + length ds), [] @ ds @ tk @ NUL # rest @ NUL # z,
       length ([] :: string) + length ds + length tk + 1)"
    using mid(3,4,2,5,6) by (intro strtok_mid) simp_all
  then have st: "strtok (line @ NUL # z) (Some 0) delim 0 =
      (Some (length ds), ds @ tk @ NUL # rest @ NUL # z, length ((c # cs) @ NUL # []))"
    using F [symmetric] by (simp add: mid(1))
  have eq: "ds @ tk @ NUL # rest @ NUL # z = (c # cs) @ NUL # [] @ rest @ NUL # z"
    using F by (metis append_Nil append_assoc)
  have "returned_text delim line = c # rtrim cs"
    unfolding returned_text_def mid(8,9) [symmetric] F by simp
  moreover have "line_matches delim ext line \<longleftrightarrow>
      ext \<in> set (map (dropWhile isspace) (tk # tokens delim rest))"
    by (simp add: line_matches_def mid(7))
  ultimately show ?thesis
    by (simp only: st prod.case token_loop_run [OF nul eq])
qed

subsection \<open>The loop over the lines\<close>

lemma buffer_line:
  assumes "NUL \<in> set buffer"
  shows "\<exists>z. buffer = string_at buffer 0 @ NUL # z"
proof -
  let ?P = "\<lambda>c. c \<noteq> NUL"
  have "dropWhile ?P buffer \<noteq> []"
    using assms by auto
  moreover from this have "hd (dropWhile ?P buffer) = NUL"
    using hd_dropWhile [of ?P buffer] by simp
  ultimately have "dropWhile ?P buffer = NUL # tl (dropWhile ?P buffer)"
    by (metis list.collapse)
  then have "buffer = takeWhile ?P buffer @ NUL # tl (dropWhile ?P buffer)"
    by (metis takeWhile_dropWhile_id)
  then show ?thesis
    by (auto simp: string_at_def)
qed

lemma string_at_no_NUL: "NUL \<notin> set (string_at mem p)"
  unfolding string_at_def using set_takeWhileD [of NUL "\<lambda>c. c \<noteq> NUL"] by blast

lemma fgets_buffer:
  assumes "fgets n stream = Some (buffer, stream')"
  shows "NUL \<in> set buffer"
  using assms by (auto simp: fgets_def split: if_splits prod.splits)

lemma line_loop_eq:
  "line_loop delim ext stream =
     Inr (map_option (returned_text delim) (find (line_matches delim ext) (lines_read stream)))"
proof (induction delim ext stream rule: line_loop.induct)
  case (1 delim ext stream)
  show ?case
  proof (cases "fgets BUFSIZ stream")
    case None
    then show ?thesis
      by (simp add: line_loop.simps [of delim ext stream] lines_read.simps [of stream])
  next
    case (Some r)
    obtain buffer stream' where r: "r = (buffer, stream')"
      by (cases r)
    let ?line = "string_at buffer 0"
    from Some r obtain z where buffer: "buffer = ?line @ NUL # z"
      using buffer_line [OF fgets_buffer] by blast
    have first: "(case strtok buffer (Some 0) delim 0 of
          (token, mem, save) \<Rightarrow> token_loop delim ext mem save token) =
        Inr (if line_matches delim ext ?line then Some (returned_text delim ?line) else None)"
      using first_line [where line = ?line and z = z and delim = delim and ext = ext,
          OF string_at_no_NUL]
      by (simp only: buffer [symmetric])
    have lines: "lines_read stream = ?line # lines_read stream'"
      using Some r by (simp add: lines_read.simps [of stream])
    obtain token mem save where st: "strtok buffer (Some 0) delim 0 = (token, mem, save)"
      by (cases "strtok buffer (Some 0) delim 0")
    show ?thesis
    proof (cases "line_matches delim ext ?line")
      case True
      with first st Some r lines show ?thesis
        by (simp add: line_loop.simps [of delim ext stream])
    next
      case False
      with first st have tl: "token_loop delim ext mem save token = Inr None"
        by simp
      have "line_loop delim ext stream' =
          Inr (map_option (returned_text delim) (find (line_matches delim ext) (lines_read stream')))"
        using "1.IH" [OF Some r [symmetric] st [symmetric] refl tl] by simp
      with False tl st Some r lines show ?thesis
        by (simp add: line_loop.simps [of delim ext stream])
    qed
  qed
qed

lemma determine_mimetype_result:
  "snd (determine_mimetype cfg fs path) =
     Inr (case path of
            None \<Rightarrow> DefaultMimeType cfg
          | Some p \<Rightarrow>
              (case strrchr p CHR ''.'' of
                 None \<Rightarrow> DefaultMimeType cfg
               | Some temp \<Rightarrow>
                   (case contents fs (MimeTypesPath cfg) of
                      None \<Rightarrow> DefaultMimeType cfg
                    | Some rules \<Rightarrow>
                        (case find (line_matches (WHITESPACE cfg) (drop (temp + 1) p))
                                (lines_read rules) of
                           None \<Rightarrow> DefaultMimeType cfg
                         | Some l \<Rightarrow> returned_text (WHITESPACE cfg) l))))"
  by (simp add: determine_mimetype_def line_loop_eq Let_def split: option.split)

subsection \<open>The content type\<close>

lemma rtrim_Cons: "\<not> isspace c \<Longrightarrow> rtrim (c # cs) = c # rtrim cs"
  by (simp add: rtrim_def dropWhile_append)

lemma returned_text_type_field:
  assumes "l \<noteq> []" "hd l \<notin> set delim" "\<not> isspace (hd l)"
  shows "returned_text delim l = rtrim (type_field delim l)"
proof -
  from assms(1) obtain c cs where l: "l = c # cs" by (cases l) auto
  with assms show ?thesis
    by (simp add: returned_text_def type_field_def rtrim_Cons)
qed

lemma example_lines:
  "lines_read example_rules =
     [''text/plain txt\<newline>''] @
     ''text/html  htm html\<newline>'' #
     [''application/xhtml+xml html\<newline>'']"
  by (simp add: example_rules_def lines_read.simps fgets_def BUFSIZ_def string_at_def NUL_def)

lemma example_tokens:
  "tokens (WHITESPACE example_config) ''text/plain txt\<newline>'' =
     [''text/plain'', ''txt'']"
  "tokens (WHITESPACE example_config) ''text/html  htm html\<newline>'' =
     [''text/html'', ''htm'', ''html'']"
  "tokens (WHITESPACE example_config) ''application/xhtml+xml html\<newline>'' =
     [''application/xhtml+xml'', ''html'']"
  by (simp_all add: example_config_def tokens.simps)

text \<open>
  What the function returns when a line matches: with the first line of the rules
  file, in the order \<^verbatim>\<open>fgets\<close> delivers the lines, that has a token equal to the
  extension, the result is the leading type-name field of that line without the spaces
  at its end, provided the line begins with a byte that is neither a delimiter nor a
  space. The lines after it play no part. For the rules file of three lines and
  \<^verbatim>\<open>index.html\<close> this is \<^verbatim>\<open>text/html\<close>, from the second line.
\<close>

lemma determine_mimetype_first_match:
  assumes "strrchr path CHR ''.'' = Some temp"
    and "contents fs (MimeTypesPath cfg) = Some rules"
    and "lines_read rules = before @ l # after"
    and "\<forall>l' \<in> set before. \<not> line_matches (WHITESPACE cfg) (drop (temp + 1) path) l'"
    and "line_matches (WHITESPACE cfg) (drop (temp + 1) path) l"
    and "l \<noteq> []" and "hd l \<notin> set (WHITESPACE cfg)" and "\<not> isspace (hd l)"
  shows "snd (determine_mimetype cfg fs (Some path)) =
    Inr (rtrim (type_field (WHITESPACE cfg) l))"
proof -
  have "find (line_matches (WHITESPACE cfg) (drop (temp + 1) path)) (lines_read rules) = Some l"
    unfolding assms(3) using assms(4,5) by (induction before) auto
  with assms(1,2) show ?thesis
    by (simp add: determine_mimetype_result returned_text_type_field [OF assms(6,7,8)])
qed

lemma determine_mimetype_index_html:
  "snd (determine_mimetype example_config example_filesystem (Some ''index.html'')) =
     Inr ''text/html''"
  by (simp add: determine_mimetype_result example_filesystem_def example_config_def
      example_lines example_tokens [unfolded example_config_def, simplified]
      line_matches_def returned_text_def rtrim_def isspace_def)

text \<open>
  C5. The first token of a line, its type name, is compared with the extension as the
  tokens after it are. With a rules file whose first line is the single token
  \<^verbatim>\<open>html\<close> and whose second line lists \<^verbatim>\<open>html\<close> as an extension of \<^verbatim>\<open>text/html\<close>, the
  result for \<^verbatim>\<open>index.html\<close> is \<^verbatim>\<open>html\<close>, the text of the first line, where the
  procedure of the specification passes that line over and gives \<^verbatim>\<open>text/html\<close>.
\<close>

theorem type_token_is_matched:
  "contents two_line_filesystem (MimeTypesPath example_config) = Some two_line_rules \<and>
   snd (determine_mimetype example_config two_line_filesystem (Some ''index.html'')) =
     Inr ''html'' \<and>
   spec_mimetype example_config two_line_rules ''html'' = ''text/html''"
proof -
  let ?ws = "[CHR 0x20, CHR 0x09, CHR 0x0A]"
  have l: "lines_read two_line_rules = [''html\<newline>'', ''text/html htm html\<newline>'']"
    by (simp add: two_line_rules_def lines_read.simps fgets_def BUFSIZ_def string_at_def NUL_def)
  have t1: "tokens ?ws ''html\<newline>'' = [''html'']"
    by (simp add: tokens.simps)
  have t2: "tokens ?ws ''text/html htm html\<newline>'' = [''text/html'', ''htm'', ''html'']"
    by (simp add: tokens.simps)
  have "snd (determine_mimetype example_config two_line_filesystem (Some ''index.html'')) =
      Inr ''html''"
    using l t1
    by (simp add: determine_mimetype_result two_line_filesystem_def example_config_def
        line_matches_def returned_text_def rtrim_def isspace_def)
  moreover have "spec_mimetype example_config two_line_rules ''html'' = ''text/html''"
    using l t1 t2
    by (simp add: spec_mimetype_def example_config_def spec_line_matches_def type_field_def
        rtrim_def isspace_def)
  ultimately show ?thesis
    by (simp add: two_line_filesystem_def example_config_def)
qed

text \<open>
  The function returns a string whatever the path and the rules file: no fault of the
  model is reached. The string is the default type when the path is absent, when it has
  no \<^verbatim>\<open>.\<close> at all, when the rules file cannot be opened, and when no line of the rules
  file has a token, the first one counted, that is equal to what follows the last
  \<^verbatim>\<open>.\<close> of the path.
\<close>

lemma determine_mimetype_returns:
  "(\<exists>mimetype. snd (determine_mimetype cfg fs path) = Inr mimetype) \<and>
   (path = None \<longrightarrow> snd (determine_mimetype cfg fs path) = Inr (DefaultMimeType cfg)) \<and>
   (\<forall>p. path = Some p \<and> CHR ''.'' \<notin> set p \<longrightarrow>
      snd (determine_mimetype cfg fs path) = Inr (DefaultMimeType cfg)) \<and>
   (contents fs (MimeTypesPath cfg) = None \<longrightarrow>
      snd (determine_mimetype cfg fs path) = Inr (DefaultMimeType cfg)) \<and>
   (\<forall>p temp rules.
      path = Some p \<and> strrchr p CHR ''.'' = Some temp \<and>
      contents fs (MimeTypesPath cfg) = Some rules \<and>
      (\<forall>l \<in> set (lines_read rules). \<not> line_matches (WHITESPACE cfg) (drop (temp + 1) p) l) \<longrightarrow>
      snd (determine_mimetype cfg fs path) = Inr (DefaultMimeType cfg))"
proof -
  have "\<exists>mimetype. snd (determine_mimetype cfg fs path) = Inr mimetype"
    by (simp add: determine_mimetype_result)
  moreover have "path = None \<longrightarrow> snd (determine_mimetype cfg fs path) = Inr (DefaultMimeType cfg)"
    by (simp add: determine_mimetype_result)
  moreover have "\<forall>p. path = Some p \<and> CHR ''.'' \<notin> set p \<longrightarrow>
      snd (determine_mimetype cfg fs path) = Inr (DefaultMimeType cfg)"
    by (auto simp: determine_mimetype_result strrchr_None [symmetric])
  moreover have "contents fs (MimeTypesPath cfg) = None \<longrightarrow>
      snd (determine_mimetype cfg fs path) = Inr (DefaultMimeType cfg)"
    by (simp add: determine_mimetype_result split: option.split)
  moreover have "\<forall>p temp rules.
      path = Some p \<and> strrchr p CHR ''.'' = Some temp \<and>
      contents fs (MimeTypesPath cfg) = Some rules \<and>
      (\<forall>l \<in> set (lines_read rules). \<not> line_matches (WHITESPACE cfg) (drop (temp + 1) p) l) \<longrightarrow>
      snd (determine_mimetype cfg fs path) = Inr (DefaultMimeType cfg)"
  proof (intro allI impI, elim conjE)
    fix p temp rules
    assume "path = Some p" "strrchr p CHR ''.'' = Some temp"
      "contents fs (MimeTypesPath cfg) = Some rules"
      "\<forall>l \<in> set (lines_read rules). \<not> line_matches (WHITESPACE cfg) (drop (temp + 1) p) l"
    moreover from this have
      "find (line_matches (WHITESPACE cfg) (drop (temp + 1) p)) (lines_read rules) = None"
      by (simp add: find_None_iff)
    ultimately show "snd (determine_mimetype cfg fs path) = Inr (DefaultMimeType cfg)"
      by (simp add: determine_mimetype_result)
  qed
  ultimately show ?thesis by blast
qed

text \<open>
  C6. Two of the failure modes do not lead to the default type \<^verbatim>\<open>text/plain\<close>. A file
  named \<^verbatim>\<open>html\<close>, without extension, in the directory \<^verbatim>\<open>a.text\<close> gets the type
  \<^verbatim>\<open>text/html\<close>: what follows the last \<^verbatim>\<open>.\<close> of the path is taken for the extension
  and is equal to a type name of the rules file. And with a rules file in which no line
  lists \<^verbatim>\<open>html\<close> as an extension, its only line being the type name \<^verbatim>\<open>html\<close>, the
  type of \<^verbatim>\<open>index.html\<close> is \<^verbatim>\<open>html\<close>.
\<close>

theorem default_not_returned:
  "DefaultMimeType example_config = ''text/plain'' \<and>
   CHR ''.'' \<notin> set (final_segment ''/srv/www/a.text/html'') \<and>
   snd (determine_mimetype example_config example_filesystem (Some ''/srv/www/a.text/html'')) =
     Inr ''text/html'' \<and>
   find (spec_line_matches (WHITESPACE example_config) ''html'') (lines_read type_only_rules) =
     None \<and>
   snd (determine_mimetype example_config type_only_filesystem (Some ''index.html'')) =
     Inr ''html''"
proof -
  let ?ws = "[CHR 0x20, CHR 0x09, CHR 0x0A]"
  have l: "lines_read type_only_rules = [''html\<newline>'']"
    by (simp add: type_only_rules_def lines_read.simps fgets_def BUFSIZ_def string_at_def NUL_def)
  have t: "tokens ?ws ''html\<newline>'' = [''html'']"
    by (simp add: tokens.simps)
  have "snd (determine_mimetype example_config example_filesystem
      (Some ''/srv/www/a.text/html'')) = Inr ''text/html''"
    by (simp add: determine_mimetype_result example_filesystem_def example_config_def
        example_lines example_tokens [unfolded example_config_def, simplified]
        line_matches_def returned_text_def rtrim_def isspace_def)
  moreover have "find (spec_line_matches (WHITESPACE example_config) ''html'')
      (lines_read type_only_rules) = None"
    using l t by (simp add: spec_line_matches_def example_config_def)
  moreover have "snd (determine_mimetype example_config type_only_filesystem
      (Some ''index.html'')) = Inr ''html''"
    using l t
    by (simp add: determine_mimetype_result type_only_filesystem_def example_config_def
        line_matches_def returned_text_def rtrim_def isspace_def)
  ultimately show ?thesis
    by (simp add: example_config_def final_segment_def)
qed

text \<open>
  For an absent path and for a path with no \<^verbatim>\<open>.\<close> anywhere in it (the empty path is
  one), the result is the default type and nothing is opened.
\<close>

lemma determine_mimetype_without_dot:
  assumes "path = None \<or> (\<exists>p. path = Some p \<and> CHR ''.'' \<notin> set p)"
  shows "determine_mimetype cfg fs path = ([], Inr (DefaultMimeType cfg))"
proof (cases path)
  case None
  then show ?thesis by (simp add: determine_mimetype_def)
next
  case (Some p)
  with assms have "strrchr p CHR ''.'' = None"
    by (simp add: strrchr_None)
  with Some show ?thesis by (simp add: determine_mimetype_def)
qed

text \<open>
  C7. The extension is looked for in the whole path, not in its final segment. For a
  file without extension in a directory whose name has a \<^verbatim>\<open>.\<close>, the rules file is
  opened and scanned; the result is the default type for \<^verbatim>\<open>v1.0/README\<close>, and for
  \<^verbatim>\<open>v1.text/html\<close> it is \<^verbatim>\<open>text/html\<close>, not the default type.
\<close>

theorem extension_from_directory_name:
  "CHR ''.'' \<notin> set (final_segment ''/srv/www/v1.0/README'') \<and>
   determine_mimetype example_config example_filesystem (Some ''/srv/www/v1.0/README'') =
     ([Fopen ''/etc/mime.types''], Inr ''text/plain'') \<and>
   CHR ''.'' \<notin> set (final_segment ''/srv/www/v1.text/html'') \<and>
   determine_mimetype example_config example_filesystem (Some ''/srv/www/v1.text/html'') =
     ([Fopen ''/etc/mime.types''], Inr ''text/html'')"
proof -
  have "fst (determine_mimetype example_config example_filesystem
      (Some ''/srv/www/v1.0/README'')) = [Fopen ''/etc/mime.types'']"
    by (simp add: determine_mimetype_def example_config_def example_filesystem_def)
  moreover have "snd (determine_mimetype example_config example_filesystem
      (Some ''/srv/www/v1.0/README'')) = Inr ''text/plain''"
    by (simp add: determine_mimetype_result example_filesystem_def example_config_def
        example_lines example_tokens [unfolded example_config_def, simplified]
        line_matches_def isspace_def)
  moreover have "fst (determine_mimetype example_config example_filesystem
      (Some ''/srv/www/v1.text/html'')) = [Fopen ''/etc/mime.types'']"
    by (simp add: determine_mimetype_def example_config_def example_filesystem_def)
  moreover have "snd (determine_mimetype example_config example_filesystem
      (Some ''/srv/www/v1.text/html'')) = Inr ''text/html''"
    by (simp add: determine_mimetype_result example_filesystem_def example_config_def
        example_lines example_tokens [unfolded example_config_def, simplified]
        line_matches_def returned_text_def rtrim_def isspace_def)
  ultimately show ?thesis
    by (simp add: final_segment_def prod_eq_iff)
qed

end
